theory Spec2Isabelle
  imports Main "HOL-Library.Sublist"
begin

section \<open>NewsCrawler (main.py): a shallow embedding\<close>

text \<open>
  The crawler of \<^verbatim>\<open>main.py\<close> is the class \<^verbatim>\<open>NewsCrawler\<close>. Its methods are
  translated one by one, under their own names. Python strings are \<^typ>\<open>string\<close>;
  the Python sets \<^verbatim>\<open>queue\<close> and \<^verbatim>\<open>visited_urls\<close> are lists without duplicates;
  exceptions are values of \<open>py_error\<close>. What the crawler takes from outside (the
  transport, the HTML parser's answers, library functions that depend on Unicode tables,
  the clock, the JSON serializer, the order in which \<^verbatim>\<open>set.pop()\<close> hands out elements)
  is a parameter of the model.
\<close>

subsection \<open>Exceptions and the parsed document\<close>

text \<open>
  The exceptions that leave the crawl loop: \<open>AttributeError\<close>, raised by
  \<^verbatim>\<open>date_str.replace\<close> when \<^verbatim>\<open>date_str\<close> is \<^verbatim>\<open>None\<close>; \<open>ValueError\<close>, raised by
  \<^verbatim>\<open>urlparse\<close> and \<^verbatim>\<open>urljoin\<close> on a malformed network location; and
  \<open>KeyboardInterrupt\<close>, the operator's interruption, taken at the fetch.
\<close>

datatype py_error = AttributeError | ValueError | KeyboardInterrupt

text \<open>
  A BeautifulSoup tag, as far as the crawler reads it: \<open>get_text_strip\<close> is
  \<^verbatim>\<open>get_text(strip=True)\<close>, \<open>get_text_sep\<close> is \<^verbatim>\<open>get_text(separator=' ', strip=True)\<close>,
  \<open>attrs\<close> are the attributes. A tag is always truthy, so \<^verbatim>\<open>if elem:\<close> tests for
  \<^verbatim>\<open>None\<close> only.
\<close>

record element =
  get_text_strip :: string
  get_text_sep :: string
  attrs :: "(string \<times> string) list"

text \<open>\<^verbatim>\<open>elem.get(name)\<close>: the attribute's value, or \<^verbatim>\<open>None\<close>.\<close>

definition el_get :: "element \<Rightarrow> string \<Rightarrow> string option" where
  "el_get e name = map_of (attrs e) name"

text \<open>
  The parsed page: \<open>select_one\<close> answers a CSS selector with the first matching tag,
  \<open>img_count\<close> is \<^verbatim>\<open>len(soup.find_all('img'))\<close>, \<open>a_hrefs\<close> are the \<^verbatim>\<open>href\<close> values of
  \<^verbatim>\<open>soup.find_all('a', href=True)\<close> in document order.
\<close>

record soup =
  select_one :: "string \<Rightarrow> element option"
  img_count :: nat
  a_hrefs :: "string list"

text \<open>The dictionary built by \<^verbatim>\<open>extract_article_data\<close>.\<close>

record article =
  url :: string
  title :: string
  category :: string
  comments_count :: int
  images_count :: nat
  content :: string
  created_at :: string
  source_website :: string

subsection \<open>The outside world\<close>

text \<open>What \<^verbatim>\<open>requests.get\<close> followed by \<^verbatim>\<open>raise_for_status\<close> and the parser come to.\<close>

datatype fetch_result = Response soup | RequestException | Interrupted

text \<open>
  \<open>pop_choice n\<close> decides which element \<^verbatim>\<open>set.pop()\<close> hands out in iteration \<open>n\<close>;
  \<open>requests_get n\<close> is the transport in iteration \<open>n\<close>; \<open>urljoin\<close> is
  \<^verbatim>\<open>urllib.parse.urljoin\<close>, which can raise \<^verbatim>\<open>ValueError\<close>;
  \<open>bracketed_netloc_ok\<close> and \<open>nfkc_netloc_ok\<close> are the two validations of
  \<^verbatim>\<open>urlsplit\<close> that need the \<^verbatim>\<open>ipaddress\<close> module and the Unicode tables: whether a
  network location with both brackets holds a valid bracketed host, and whether a network
  location that is not ASCII passes the NFKC check; \<open>re_sub_non_digits\<close> is
  \<^verbatim>\<open>re.sub(r'\D', '', s)\<close> and \<open>py_int\<close> is \<^verbatim>\<open>int(s)\<close>, \<open>None\<close> for \<^verbatim>\<open>ValueError\<close>, both
  over Unicode decimal digits; \<open>fromisoformat\<close> is
  \<^verbatim>\<open>datetime.fromisoformat(s).isoformat()\<close>, \<open>None\<close> for \<^verbatim>\<open>ValueError\<close>; \<open>now n\<close> is
  \<^verbatim>\<open>datetime.now().isoformat()\<close> in iteration \<open>n\<close>; \<open>json_dump\<close> is the text that
  \<^verbatim>\<open>json.dump\<close> writes.
\<close>

record env =
  pop_choice :: "nat \<Rightarrow> nat"
  requests_get :: "nat \<Rightarrow> string \<Rightarrow> fetch_result"
  urljoin :: "string \<Rightarrow> string \<Rightarrow> py_error + string"
  bracketed_netloc_ok :: "string \<Rightarrow> bool"
  nfkc_netloc_ok :: "string \<Rightarrow> bool"
  re_sub_non_digits :: "string \<Rightarrow> string"
  py_int :: "string \<Rightarrow> int option"
  fromisoformat :: "string \<Rightarrow> string option"
  now :: "nat \<Rightarrow> string"
  json_dump :: "article list \<Rightarrow> string"

subsection \<open>Strings\<close>

text \<open>
  \<^verbatim>\<open>sub in s\<close> on strings is \<^const>\<open>sublist\<close>, \<^verbatim>\<open>s.endswith(e)\<close> is \<^const>\<open>suffix\<close>.
  A string is its UTF-8 bytes. \<open>lower\<close> changes the ASCII capitals only; no character
  outside ASCII has a lower case that is one of the letters of the six extensions, so the
  extension test of the classifier comes out as with \<^verbatim>\<open>str.lower\<close>.
\<close>

definition lower_char :: "char \<Rightarrow> char" where
  "lower_char c =
     (let n = (of_char c :: nat) in if 65 \<le> n \<and> n \<le> 90 then char_of (n + 32) else c)"

definition lower :: "string \<Rightarrow> string" where
  "lower s = map lower_char s"

text \<open>The ASCII digits and letters, as in \<^verbatim>\<open>scheme_chars\<close> of \<^verbatim>\<open>urllib.parse\<close>.\<close>

definition is_digit :: "char \<Rightarrow> bool" where
  "is_digit c = (let n = (of_char c :: nat) in 48 \<le> n \<and> n \<le> 57)"

definition is_alpha :: "char \<Rightarrow> bool" where
  "is_alpha c =
     (let n = (of_char c :: nat) in (65 \<le> n \<and> n \<le> 90) \<or> (97 \<le> n \<and> n \<le> 122))"

definition is_ascii :: "char \<Rightarrow> bool" where
  "is_ascii c = ((of_char c :: nat) < 128)"

subsection \<open>urllib.parse.urlparse: the network location and the path\<close>

text \<open>
  \<^verbatim>\<open>urlsplit\<close>, as far as the network location and the path go: leading C0 control
  characters and spaces are stripped, tab, CR and LF are removed, a scheme (a letter
  followed by scheme characters, up to the first colon) is cut off, and when the rest starts
  with \<^verbatim>\<open>//\<close> the network location runs up to the first of \<^verbatim>\<open>/\<close>, \<^verbatim>\<open>?\<close>, \<^verbatim>\<open>#\<close>. The path
  is what follows, up to the first \<^verbatim>\<open>#\<close> or \<^verbatim>\<open>?\<close> (\<^verbatim>\<open>urlparse\<close> cuts it further at a
  \<^verbatim>\<open>;\<close> in its last segment; the crawler reads the network location only).
  \<^verbatim>\<open>ValueError\<close> is raised when the
  network location has one bracket without the other, when it has both and the bracketed
  host is not valid, and when it is not ASCII and fails the NFKC check.
\<close>

definition scheme_char :: "char \<Rightarrow> bool" where
  "scheme_char c = (is_alpha c \<or> is_digit c \<or> c \<in> set ''+-.'')"

definition url_clean :: "string \<Rightarrow> string" where
  "url_clean u =
     filter (\<lambda>c. c \<noteq> CHR 0x09 \<and> c \<noteq> CHR 0x0A \<and> c \<noteq> CHR 0x0D)
       (dropWhile (\<lambda>c. (of_char c :: nat) \<le> 32) u)"

definition strip_scheme :: "string \<Rightarrow> string" where
  "strip_scheme u =
     (let p = takeWhile (\<lambda>c. c \<noteq> CHR '':'') u in
      if CHR '':'' \<in> set u \<and> p \<noteq> [] \<and> is_alpha (hd p) \<and> list_all scheme_char p
      then drop (length p + 1) u else u)"

definition netloc_delim :: "char \<Rightarrow> bool" where
  "netloc_delim c = (c \<in> set ''/?#'')"

record parse_result =
  netloc :: string
  path :: string

definition urlparse :: "env \<Rightarrow> string \<Rightarrow> py_error + parse_result" where
  "urlparse ev u =
     (let rest = strip_scheme (url_clean u);
          has_netloc = (take 2 rest = ''//'');
          nl = (if has_netloc then takeWhile (\<lambda>c. \<not> netloc_delim c) (drop 2 rest) else []);
          after = (if has_netloc then dropWhile (\<lambda>c. \<not> netloc_delim c) (drop 2 rest) else rest);
          open_br = (CHR ''['' \<in> set nl);
          close_br = (CHR '']'' \<in> set nl)
      in if (open_br \<and> \<not> close_br) \<or> (close_br \<and> \<not> open_br) then Inl ValueError
         else if open_br \<and> close_br \<and> \<not> bracketed_netloc_ok ev nl then Inl ValueError
         else if nl \<noteq> [] \<and> \<not> list_all is_ascii nl \<and> \<not> nfkc_netloc_ok ev nl then Inl ValueError
         else Inr \<lparr>netloc = nl,
                   path = takeWhile (\<lambda>c. c \<noteq> CHR ''#'' \<and> c \<noteq> CHR ''?'') after\<rparr>)"

subsection \<open>is_valid_article_url\<close>

definition valid_domains :: "string list" where
  "valid_domains = [''novinky.cz'', ''idnes.cz'', ''ctk.cz'']"

definition file_extensions :: "string list" where
  "file_extensions = [''.jpg'', ''.jpeg'', ''.png'', ''.gif'', ''.pdf'', ''.mp4'']"

text \<open>The patterns are plain text, so \<^verbatim>\<open>re.search(pattern, url)\<close> is a substring test.\<close>

definition article_patterns :: "(string \<times> string) list" where
  "article_patterns =
     [(''novinky.cz'', ''/clanek/''), (''idnes.cz'', ''/zpravy/''), (''ctk.cz'', ''/clanek/'')]"

text \<open>\<^verbatim>\<open>urlparse(url)\<close> is the first statement that can raise; the rest computes.\<close>

definition is_valid_article_url :: "env \<Rightarrow> string \<Rightarrow> py_error + bool" where
  "is_valid_article_url ev u =
     (case urlparse ev u of
        Inl e \<Rightarrow> Inl e
      | Inr parsed_url \<Rightarrow>
          (let domain_match =
                 list_ex (\<lambda>domain. sublist domain (netloc parsed_url)) valid_domains;
               is_file = list_ex (\<lambda>ext. suffix ext (lower u)) file_extensions;
               is_article =
                 list_ex (\<lambda>(site, pattern). sublist pattern u)
                   (filter (\<lambda>(site, pattern). sublist site (netloc parsed_url))
                      article_patterns)
           in Inr (domain_match \<and> is_article \<and> \<not> is_file)))"

subsection \<open>The extraction pipeline\<close>

text \<open>
  The loop \<^verbatim>\<open>for selector in selectors: elem = soup.select_one(selector); if elem: return ...\<close>
  of \<^verbatim>\<open>extract_title\<close>, \<^verbatim>\<open>extract_category\<close> and \<^verbatim>\<open>extract_content\<close>: the first tag found.
\<close>

fun first_match :: "soup \<Rightarrow> string list \<Rightarrow> element option" where
  "first_match sp [] = None"
| "first_match sp (selector # rest) =
     (case select_one sp selector of
        Some elem \<Rightarrow> Some elem
      | None \<Rightarrow> first_match sp rest)"

definition title_selectors :: "string list" where
  "title_selectors = [''h1.article-title'', ''h1.title'', ''h1'', ''title'']"

text \<open>The sentinel of the title, in UTF-8.\<close>

definition title_not_found :: string where
  "title_not_found =
     ''Nepoda'' @ [CHR 0xC5, CHR 0x99] @ ''ilo se naj'' @ [CHR 0xC3, CHR 0xAD] @ ''t nadpis''"

definition extract_title :: "soup \<Rightarrow> string" where
  "extract_title sp =
     (case first_match sp title_selectors of
        Some title_elem \<Rightarrow> get_text_strip title_elem
      | None \<Rightarrow> title_not_found)"

text \<open>\<^verbatim>\<open>a or b\<close> on values that are a string or \<^verbatim>\<open>None\<close>: \<^verbatim>\<open>None\<close> and \<^verbatim>\<open>''\<close> are falsy.\<close>

fun py_or :: "string option \<Rightarrow> string option \<Rightarrow> string option" where
  "py_or (Some (c # cs)) b = Some (c # cs)"
| "py_or a b = b"

definition category_selectors :: "string list" where
  "category_selectors =
     [''span.category'', ''div.rubrika'', ''meta[property=\"article:section\"]'']"

definition extract_category :: "soup \<Rightarrow> string" where
  "extract_category sp =
     (case first_match sp category_selectors of
        Some category_elem \<Rightarrow>
          (case py_or (el_get category_elem ''content'') (Some (get_text_strip category_elem)) of
             Some v \<Rightarrow> v
           | None \<Rightarrow> [])
      | None \<Rightarrow> ''Kategorie nenalezena'')"

definition comments_selectors :: "string list" where
  "comments_selectors =
     [''span.comments-count'', ''div.comments-count'', ''meta[itemprop=\"commentCount\"]'']"

text \<open>
  A \<^verbatim>\<open>ValueError\<close> of \<^verbatim>\<open>int\<close> is caught, and the loop goes on to the next selector.
\<close>

fun extract_comments_loop :: "env \<Rightarrow> soup \<Rightarrow> string list \<Rightarrow> int" where
  "extract_comments_loop ev sp [] = 0"
| "extract_comments_loop ev sp (selector # rest) =
     (case select_one sp selector of
        None \<Rightarrow> extract_comments_loop ev sp rest
      | Some comments_elem \<Rightarrow>
          (let raw = (case el_get comments_elem ''content'' of
                        Some c \<Rightarrow> c
                      | None \<Rightarrow> get_text_strip comments_elem)
           in case py_int ev (re_sub_non_digits ev raw) of
                Some k \<Rightarrow> k
              | None \<Rightarrow> extract_comments_loop ev sp rest))"

definition extract_comments_count :: "env \<Rightarrow> soup \<Rightarrow> int" where
  "extract_comments_count ev sp = extract_comments_loop ev sp comments_selectors"

definition content_selectors :: "string list" where
  "content_selectors = [''div.article-content'', ''div.content'', ''article'', ''div.text'']"

definition extract_content :: "soup \<Rightarrow> string" where
  "extract_content sp =
     (case first_match sp content_selectors of
        Some content_elem \<Rightarrow> get_text_sep content_elem
      | None \<Rightarrow> ''Obsah nenalezen'')"

definition date_selectors :: "string list" where
  "date_selectors =
     [''meta[property=\"article:published_time\"]'', ''time[datetime]'',
      ''meta[name=\"date\"]'']"

text \<open>\<^verbatim>\<open>date_str.replace('Z', '+00:00')\<close>: every \<^verbatim>\<open>Z\<close> is replaced.\<close>

definition replace_Z :: "string \<Rightarrow> string" where
  "replace_Z s = concat (map (\<lambda>c. if c = CHR ''Z'' then ''+00:00'' else [c]) s)"

text \<open>
  \<^verbatim>\<open>extract_date\<close>: the \<^verbatim>\<open>try\<close> catches \<^verbatim>\<open>ValueError\<close> and \<^verbatim>\<open>TypeError\<close> and goes on to
  the next selector; \<^verbatim>\<open>None.replace\<close> is an \<^verbatim>\<open>AttributeError\<close>, which it does not catch.
\<close>

fun extract_date_loop :: "env \<Rightarrow> nat \<Rightarrow> soup \<Rightarrow> string list \<Rightarrow> py_error + string" where
  "extract_date_loop ev n sp [] = Inr (now ev n)"
| "extract_date_loop ev n sp (selector # rest) =
     (case select_one sp selector of
        None \<Rightarrow> extract_date_loop ev n sp rest
      | Some date_elem \<Rightarrow>
          (case py_or (el_get date_elem ''content'') (el_get date_elem ''datetime'') of
             None \<Rightarrow> Inl AttributeError
           | Some date_str \<Rightarrow>
               (case fromisoformat ev (replace_Z date_str) of
                  Some parsed \<Rightarrow> Inr parsed
                | None \<Rightarrow> extract_date_loop ev n sp rest)))"

definition extract_date :: "env \<Rightarrow> nat \<Rightarrow> soup \<Rightarrow> py_error + string" where
  "extract_date ev n sp = extract_date_loop ev n sp date_selectors"

text \<open>
  The dictionary's values are computed in the order in which they are written: the date,
  which can raise, comes before \<^verbatim>\<open>urlparse(url).netloc\<close>, which can raise too.
\<close>

definition extract_article_data :: "env \<Rightarrow> nat \<Rightarrow> string \<Rightarrow> soup \<Rightarrow> py_error + article" where
  "extract_article_data ev n u sp =
     (case extract_date ev n sp of
        Inl e \<Rightarrow> Inl e
      | Inr date \<Rightarrow>
          (case urlparse ev u of
             Inl e \<Rightarrow> Inl e
           | Inr parsed_url \<Rightarrow>
               Inr \<lparr>url = u,
                    title = extract_title sp,
                    category = extract_category sp,
                    comments_count = extract_comments_count ev sp,
                    images_count = img_count sp,
                    content = extract_content sp,
                    created_at = date,
                    source_website = netloc parsed_url\<rparr>))"

subsection \<open>The crawler's state, the store and the output file\<close>

text \<open>
  What can be observed from outside: the calls of the transport with their outcome, the
  lines written to the log, and the links that a page, named by its URL, hands to the queue
  in \<^verbatim>\<open>queue.update\<close>.
\<close>

datatype event =
    GetOk string
  | GetFailed string
  | GetInterrupted string
  | LogSaved string
  | LogJsonSaved nat
  | LogJsonError
  | LogCrawlError string
  | Offer string "string list"

text \<open>
  The fields of \<^verbatim>\<open>NewsCrawler\<close>, with the contents of the file at \<^verbatim>\<open>articles_file\<close>
  (\<open>None\<close> when the file does not exist) and the events so far.
\<close>

record crawler =
  start_urls :: "string list"
  visited_urls :: "string list"
  queue :: "string list"
  max_pages :: int
  articles :: "article list"
  articles_file :: "string option"
  trace :: "event list"

definition NewsCrawler :: "string list \<Rightarrow> int \<Rightarrow> string option \<Rightarrow> crawler" where
  "NewsCrawler starts maxp file =
     \<lparr>start_urls = starts, visited_urls = [], queue = remdups starts, max_pages = maxp,
      articles = [], articles_file = file, trace = []\<rparr>"

text \<open>
  \<^verbatim>\<open>save_json\<close> opens the file in mode \<^verbatim>\<open>'r+'\<close>: a file that does not exist is a
  \<^verbatim>\<open>FileNotFoundError\<close>, caught and logged; a file that exists is written from its start
  and not truncated, so what it held beyond the new text stays.
\<close>

definition save_json :: "env \<Rightarrow> crawler \<Rightarrow> crawler" where
  "save_json ev s =
     (case articles_file s of
        None \<Rightarrow> s\<lparr>trace := trace s @ [LogJsonError]\<rparr>
      | Some old \<Rightarrow>
          (let new = json_dump ev (articles s) in
           s\<lparr>articles_file := Some (new @ drop (length new) old),
             trace := trace s @ [LogJsonSaved (length (articles s))]\<rparr>))"

definition save_article :: "env \<Rightarrow> crawler \<Rightarrow> article \<Rightarrow> crawler" where
  "save_article ev s article_data =
     (if \<not> list_ex (\<lambda>a. url a = url article_data) (articles s) then
        (let s1 = s\<lparr>articles := articles s @ [article_data],
                    trace := trace s @ [LogSaved (url article_data)]\<rparr>
         in if length (articles s1) mod 50 = 0 then save_json ev s1 else s1)
      else s)"

text \<open>
  \<^verbatim>\<open>extract_links\<close>: the loop over the links of the page; \<open>links\<close> is the set built so
  far. A \<^verbatim>\<open>ValueError\<close> of \<^verbatim>\<open>urljoin\<close> or of \<open>is_valid_article_url\<close> ends it.
\<close>

fun extract_links_loop :: "env \<Rightarrow> string \<Rightarrow> string list \<Rightarrow> string list \<Rightarrow> py_error + string list" where
  "extract_links_loop ev base_url [] links = Inr links"
| "extract_links_loop ev base_url (href # rest) links =
     (case urljoin ev base_url href of
        Inl e \<Rightarrow> Inl e
      | Inr absolute_url \<Rightarrow>
          (case is_valid_article_url ev absolute_url of
             Inl e \<Rightarrow> Inl e
           | Inr valid \<Rightarrow>
               extract_links_loop ev base_url rest
                 (if valid \<and> absolute_url \<notin> set links then links @ [absolute_url]
                  else links)))"

definition extract_links :: "env \<Rightarrow> soup \<Rightarrow> string \<Rightarrow> py_error + string list" where
  "extract_links ev sp base_url = extract_links_loop ev base_url (a_hrefs sp) []"

subsection \<open>The crawl loop\<close>

text \<open>The loop's condition: \<^verbatim>\<open>self.queue and len(self.visited_urls) < self.max_pages\<close>.\<close>

definition loop_cond :: "crawler \<Rightarrow> bool" where
  "loop_cond s = (queue s \<noteq> [] \<and> int (length (visited_urls s)) < max_pages s)"

text \<open>\<^verbatim>\<open>self.queue.pop()\<close>: some element of the set, which leaves the set.\<close>

definition pop_url :: "env \<Rightarrow> nat \<Rightarrow> crawler \<Rightarrow> string" where
  "pop_url ev n s = queue s ! (pop_choice ev n mod length (queue s))"

text \<open>
  \<^verbatim>\<open>self.queue.update(new_links - self.visited_urls)\<close>, with the event that records it.
\<close>

definition offer_links :: "string \<Rightarrow> string list \<Rightarrow> crawler \<Rightarrow> crawler" where
  "offer_links u new_links s =
     (let offered = filter (\<lambda>l. l \<notin> set (visited_urls s)) new_links in
      s\<lparr>queue := queue s @ filter (\<lambda>l. l \<notin> set (queue s)) offered,
        trace := trace s @ [Offer u offered]\<rparr>)"

text \<open>
  One iteration of the \<^verbatim>\<open>while\<close> loop, entered with a queue that is not empty. \<open>Inr\<close> is
  the state in which the loop goes on; \<open>Inl\<close> is an exception that leaves the loop.
\<close>

definition loop_body :: "env \<Rightarrow> nat \<Rightarrow> crawler \<Rightarrow> (py_error \<times> crawler) + crawler" where
  "loop_body ev n s =
     (let u = pop_url ev n s;
          s1 = s\<lparr>queue := removeAll u (queue s)\<rparr>
      in if u \<in> set (visited_urls s1) then Inr s1
         else
           (case requests_get ev n u of
              RequestException \<Rightarrow>
                Inr (s1\<lparr>trace := trace s1 @ [GetFailed u, LogCrawlError u]\<rparr>)
            | Interrupted \<Rightarrow>
                Inl (KeyboardInterrupt, s1\<lparr>trace := trace s1 @ [GetInterrupted u]\<rparr>)
            | Response sp \<Rightarrow>
                (let s2 = s1\<lparr>trace := trace s1 @ [GetOk u]\<rparr> in
                 case extract_article_data ev n u sp of
                   Inl e \<Rightarrow> Inl (e, s2)
                 | Inr article_data \<Rightarrow>
                     (let s3 = save_article ev s2 article_data in
                      case extract_links ev sp u of
                        Inl e \<Rightarrow> Inl (e, s3)
                      | Inr new_links \<Rightarrow>
                          (let s4 = offer_links u new_links s3;
                               s5 = s4\<lparr>visited_urls := List.insert u (visited_urls s4)\<rparr>
                           in Inr s5)))))"

definition crawl_measure :: "crawler \<Rightarrow> nat \<times> nat" where
  "crawl_measure s = (nat (max_pages s - int (length (visited_urls s))), length (queue s))"

function crawl_loop :: "env \<Rightarrow> nat \<Rightarrow> crawler \<Rightarrow> py_error option \<times> crawler" where
  "crawl_loop ev n s =
     (if loop_cond s then
        (case loop_body ev n s of
           Inl (e, s') \<Rightarrow> (Some e, s')
         | Inr s' \<Rightarrow> crawl_loop ev (Suc n) s')
      else (None, s))"
  by pat_completeness auto

text \<open>
  The loop ends: an iteration that goes on has either visited one more page, of at most
  \<open>max_pages\<close>, or has left the visited set as it was and taken one URL off the queue.
\<close>

lemma loop_body_decreases:
  assumes "loop_cond s" and "loop_body ev n s = Inr s'"
  shows "(crawl_measure s', crawl_measure s) \<in> less_than <*lex*> less_than"
proof -
  define u where "u = pop_url ev n s"
  have "u \<in> set (queue s)"
    using assms(1) by (simp add: u_def pop_url_def loop_cond_def)
  then have shorter: "length (removeAll u (queue s)) < length (queue s)"
    by (simp add: length_removeAll_less)
  have cap: "int (length (visited_urls s)) < max_pages s"
    using assms(1) by (simp add: loop_cond_def)
  have keep_a: "visited_urls (save_article ev t a) = visited_urls t
      \<and> max_pages (save_article ev t a) = max_pages t
      \<and> queue (save_article ev t a) = queue t" for t a
    by (simp add: save_article_def save_json_def Let_def split: option.splits)
  show ?thesis
  proof (cases "u \<in> set (visited_urls s)")
    case True
    with assms(2) have "s' = s\<lparr>queue := removeAll u (queue s)\<rparr>"
      by (simp add: loop_body_def Let_def u_def [symmetric])
    with shorter show ?thesis by (simp add: crawl_measure_def)
  next
    case False
    show ?thesis
    proof (cases "requests_get ev n u")
      case RequestException
      with False assms(2) have "visited_urls s' = visited_urls s \<and> max_pages s' = max_pages s
          \<and> queue s' = removeAll u (queue s)"
        by (auto simp add: loop_body_def Let_def u_def [symmetric])
      with shorter show ?thesis by (simp add: crawl_measure_def)
    next
      case Interrupted
      with False assms(2) show ?thesis
        by (simp add: loop_body_def Let_def u_def [symmetric])
    next
      case (Response sp)
      with False assms(2) have "visited_urls s' = u # visited_urls s \<and> max_pages s' = max_pages s"
        by (auto simp add: loop_body_def Let_def u_def [symmetric] keep_a offer_links_def
            split: sum.splits)
      with cap show ?thesis by (simp add: crawl_measure_def)
    qed
  qed
qed

termination crawl_loop
proof (relation "inv_image (less_than <*lex*> less_than) (\<lambda>(ev, n, s). crawl_measure s)")
  show "wf (inv_image (less_than <*lex*> less_than) (\<lambda>(ev, n, s). crawl_measure s))"
    by (intro wf_inv_image wf_lex_prod wf_less_than)
next
  fix ev :: env and n :: nat and s s' :: crawler
  assume "loop_cond s" and "loop_body ev n s = Inr s'"
  then have "(crawl_measure s', crawl_measure s) \<in> less_than <*lex*> less_than"
    by (rule loop_body_decreases)
  then show "((ev, Suc n, s'), ev, n, s)
      \<in> inv_image (less_than <*lex*> less_than) (\<lambda>(ev, n, s). crawl_measure s)"
    by simp
qed

text \<open>
  \<^verbatim>\<open>crawl\<close>: the loop inside \<^verbatim>\<open>try\<close>, \<^verbatim>\<open>save_json\<close> in \<^verbatim>\<open>finally\<close>. The first component
  is the exception that \<^verbatim>\<open>crawl\<close> re-raises, if any.
\<close>

definition crawl :: "env \<Rightarrow> crawler \<Rightarrow> py_error option \<times> crawler" where
  "crawl ev s = (case crawl_loop ev 0 s of (raised, s') \<Rightarrow> (raised, save_json ev s'))"

subsection \<open>Observation points of the loop\<close>

text \<open>
  The states between the statements of one iteration, in order: after \<^verbatim>\<open>queue.pop()\<close>,
  after the fetch, after \<^verbatim>\<open>save_article\<close>, after \<^verbatim>\<open>queue.update\<close>, after
  \<^verbatim>\<open>visited_urls.add\<close>. The last of them is the state that \<open>loop_body\<close> ends in.
\<close>

definition body_points :: "env \<Rightarrow> nat \<Rightarrow> crawler \<Rightarrow> crawler list" where
  "body_points ev n s =
     (let u = pop_url ev n s;
          s1 = s\<lparr>queue := removeAll u (queue s)\<rparr>
      in if u \<in> set (visited_urls s1) then [s1]
         else
           (case requests_get ev n u of
              RequestException \<Rightarrow> [s1, s1\<lparr>trace := trace s1 @ [GetFailed u, LogCrawlError u]\<rparr>]
            | Interrupted \<Rightarrow> [s1, s1\<lparr>trace := trace s1 @ [GetInterrupted u]\<rparr>]
            | Response sp \<Rightarrow>
                (let s2 = s1\<lparr>trace := trace s1 @ [GetOk u]\<rparr> in
                 case extract_article_data ev n u sp of
                   Inl e \<Rightarrow> [s1, s2]
                 | Inr article_data \<Rightarrow>
                     (let s3 = save_article ev s2 article_data in
                      case extract_links ev sp u of
                        Inl e \<Rightarrow> [s1, s2, s3]
                      | Inr new_links \<Rightarrow>
                          (let s4 = offer_links u new_links s3;
                               s5 = s4\<lparr>visited_urls := List.insert u (visited_urls s4)\<rparr>
                           in [s1, s2, s3, s4, s5])))))"

text \<open>All observation points of a run of the loop: every loop head and every point inside.\<close>

function crawl_states :: "env \<Rightarrow> nat \<Rightarrow> crawler \<Rightarrow> crawler list" where
  "crawl_states ev n s =
     s # (if loop_cond s then
            body_points ev n s @
              (case loop_body ev n s of
                 Inl (e, s') \<Rightarrow> []
               | Inr s' \<Rightarrow> crawl_states ev (Suc n) s')
          else [])"
  by pat_completeness auto

termination crawl_states
proof (relation "inv_image (less_than <*lex*> less_than) (\<lambda>(ev, n, s). crawl_measure s)")
  show "wf (inv_image (less_than <*lex*> less_than) (\<lambda>(ev, n, s). crawl_measure s))"
    by (intro wf_inv_image wf_lex_prod wf_less_than)
next
  fix ev :: env and n :: nat and s s' :: crawler
  assume "loop_cond s" and "loop_body ev n s = Inr s'"
  then have "(crawl_measure s', crawl_measure s) \<in> less_than <*lex*> less_than"
    by (rule loop_body_decreases)
  then show "((ev, Suc n, s'), ev, n, s)
      \<in> inv_image (less_than <*lex*> less_than) (\<lambda>(ev, n, s). crawl_measure s)"
    by simp
qed

subsection \<open>Reading the events\<close>

definition is_get :: "string \<Rightarrow> event \<Rightarrow> bool" where
  "is_get u e = (e = GetOk u \<or> e = GetFailed u \<or> e = GetInterrupted u)"

text \<open>How often the transport was called for \<open>u\<close>.\<close>

definition fetch_count :: "string \<Rightarrow> event list \<Rightarrow> nat" where
  "fetch_count u tr = length (filter (is_get u) tr)"

text \<open>How often the transport was called for \<open>u\<close> after its first successful fetch.\<close>

definition refetches :: "string \<Rightarrow> event list \<Rightarrow> nat" where
  "refetches u tr = fetch_count u (tl (dropWhile (\<lambda>e. e \<noteq> GetOk u) tr))"

definition is_checkpoint :: "event \<Rightarrow> bool" where
  "is_checkpoint e = (case e of LogJsonSaved k \<Rightarrow> True | LogJsonError \<Rightarrow> True | _ \<Rightarrow> False)"

text \<open>How often \<^verbatim>\<open>save_json\<close> was called: each call writes one line to the log.\<close>

definition checkpoints :: "event list \<Rightarrow> nat" where
  "checkpoints tr = length (filter is_checkpoint tr)"

subsection \<open>A small world to run the crawler in\<close>

text \<open>
  A page without any of the tags the extraction looks for, with the given links; a world
  in which \<^verbatim>\<open>set.pop()\<close> hands out the oldest element, links are absolute already,
  the validations of \<^verbatim>\<open>urlsplit\<close> pass, digits are the ASCII digits, no date parses, and
  the serializer writes the URLs between brackets.
\<close>

definition plain_soup :: "string list \<Rightarrow> soup" where
  "plain_soup hrefs = \<lparr>select_one = (\<lambda>selector. None), img_count = 0, a_hrefs = hrefs\<rparr>"

definition digits_value :: "string \<Rightarrow> int" where
  "digits_value ds = foldl (\<lambda>acc c. 10 * acc + (int (of_char c) - 48)) 0 ds"

definition stub_env :: "(nat \<Rightarrow> string \<Rightarrow> fetch_result) \<Rightarrow> env" where
  "stub_env get =
     \<lparr>pop_choice = (\<lambda>n. 0),
      requests_get = get,
      urljoin = (\<lambda>base href. Inr href),
      bracketed_netloc_ok = (\<lambda>nl. True),
      nfkc_netloc_ok = (\<lambda>nl. True),
      re_sub_non_digits = filter is_digit,
      py_int = (\<lambda>ds. if ds = [] then None else Some (digits_value ds)),
      fromisoformat = (\<lambda>s. None),
      now = (\<lambda>n. ''2024-01-01T00:00:00''),
      json_dump = (\<lambda>as. ''['' @ concat (map url as) @ '']'')\<rparr>"

definition url_a :: string where "url_a = ''http://ctk.cz/clanek/a''"
definition url_b :: string where "url_b = ''http://ctk.cz/clanek/b''"
definition url_c :: string where "url_c = ''http://ctk.cz/clanek/c''"

text \<open>Page a links to b and c, page c links to b, and b cannot be fetched.\<close>

definition get_b_fails :: "nat \<Rightarrow> string \<Rightarrow> fetch_result" where
  "get_b_fails n u =
     (if u = url_a then Response (plain_soup [url_b, url_c])
      else if u = url_c then Response (plain_soup [url_b])
      else RequestException)"

text \<open>Page a links to itself.\<close>

definition get_self_link :: "nat \<Rightarrow> string \<Rightarrow> fetch_result" where
  "get_self_link n u =
     (if u = url_a then Response (plain_soup [url_a]) else RequestException)"

text \<open>The operator interrupts the first fetch.\<close>

definition get_interrupted :: "nat \<Rightarrow> string \<Rightarrow> fetch_result" where
  "get_interrupted n u = Interrupted"

text \<open>A page whose date tag has neither \<^verbatim>\<open>content\<close> nor \<^verbatim>\<open>datetime\<close>: \<^verbatim>\<open><meta name="date">\<close>.\<close>

definition soup_bare_date :: soup where
  "soup_bare_date =
     \<lparr>select_one = (\<lambda>selector. if selector = ''meta[name=\"date\"]''
                       then Some \<lparr>get_text_strip = [], get_text_sep = [],
                                  attrs = [(''name'', ''date'')]\<rparr>
                       else None),
      img_count = 0, a_hrefs = []\<rparr>"

text \<open>A page with a specific article title, a generic heading and a document title.\<close>

definition soup_titles :: soup where
  "soup_titles =
     \<lparr>select_one = (\<lambda>selector.
         if selector = ''h1.article-title'' \<or> selector = ''h1''
         then Some \<lparr>get_text_strip = ''Specific'', get_text_sep = ''Specific'',
                    attrs = [(''class'', ''article-title'')]\<rparr>
         else if selector = ''title''
         then Some \<lparr>get_text_strip = ''Generic'', get_text_sep = ''Generic'', attrs = []\<rparr>
         else None),
      img_count = 0, a_hrefs = []\<rparr>"

definition article_of :: "string \<Rightarrow> string \<Rightarrow> article" where
  "article_of u t =
     \<lparr>url = u, title = t, category = [], comments_count = 0, images_count = 0,
      content = [], created_at = [], source_website = []\<rparr>"

subsection \<open>Properties of the state\<close>

text \<open>Events that are not calls of the transport.\<close>

definition log_only :: "event list \<Rightarrow> bool" where
  "log_only ex = (\<forall>e \<in> set ex. \<forall>u. \<not> is_get u e)"

text \<open>Every URL that was fetched successfully is in the visited set.\<close>

definition fetched_visited :: "crawler \<Rightarrow> bool" where
  "fetched_visited s = (\<forall>u. GetOk u \<in> set (trace s) \<longrightarrow> u \<in> set (visited_urls s))"

text \<open>Every URL in the visited set was fetched successfully.\<close>

definition visited_fetched :: "crawler \<Rightarrow> bool" where
  "visited_fetched s = (\<forall>u \<in> set (visited_urls s). GetOk u \<in> set (trace s))"

text \<open>No URL was fetched again after a successful fetch.\<close>

definition no_refetch :: "crawler \<Rightarrow> bool" where
  "no_refetch s = (\<forall>u. refetches u (trace s) = 0)"

text \<open>The page of \<open>u\<close> handed \<open>u\<close> itself to the queue.\<close>

definition offered_itself :: "string \<Rightarrow> event list \<Rightarrow> bool" where
  "offered_itself u tr =
     list_ex (\<lambda>e. case e of Offer v links \<Rightarrow> v = u \<and> u \<in> set links | _ \<Rightarrow> False) tr"

text \<open>A URL in both the queue and the visited set was handed to the queue by its own page.\<close>

definition both_self_offered :: "crawler \<Rightarrow> bool" where
  "both_self_offered s =
     (\<forall>u \<in> set (queue s) \<inter> set (visited_urls s). offered_itself u (trace s))"

section \<open>Auxiliary facts\<close>

declare crawl_loop.simps [simp del] crawl_states.simps [simp del]

subsection \<open>The store\<close>

lemma save_json_articles: "articles (save_json ev s) = articles s"
  by (simp add: save_json_def Let_def split: option.splits)

lemma save_article_articles:
  "articles (save_article ev s a) =
     (if list_ex (\<lambda>b. url b = url a) (articles s) then articles s else articles s @ [a])"
  by (simp add: save_article_def Let_def save_json_articles)

lemma add_all_snoc:
  "foldl (save_article ev) s (as @ [a]) = save_article ev (foldl (save_article ev) s as) a"
  by simp

lemma save_article_urls:
  "url ` set (articles (save_article ev s a)) = insert (url a) (url ` set (articles s))"
proof (cases "list_ex (\<lambda>b. url b = url a) (articles s)")
  case True
  then obtain b where "b \<in> set (articles s)" and "url b = url a"
    by (auto simp add: list_ex_iff)
  then have "url a \<in> url ` set (articles s)"
    by (metis imageI)
  with True show ?thesis
    by (simp add: save_article_articles insert_absorb)
next
  case False
  then show ?thesis
    by (simp add: save_article_articles)
qed

lemma stored_urls:
  "url ` set (articles (foldl (save_article ev) s as)) = url ` set (articles s) \<union> url ` set as"
proof (induction as rule: rev_induct)
  case Nil
  show ?case by simp
next
  case (snoc a as)
  show ?case
    unfolding add_all_snoc save_article_urls snoc by auto
qed

lemma find_snoc:
  "List.find P (xs @ [x]) =
     (case List.find P xs of Some y \<Rightarrow> Some y | None \<Rightarrow> if P x then Some x else None)"
  by (induction xs) auto

lemma stored_distinct:
  "distinct (map url (articles s)) \<Longrightarrow>
   distinct (map url (articles (foldl (save_article ev) s as)))"
proof (induction as rule: rev_induct)
  case Nil
  then show ?case by simp
next
  case (snoc a as)
  then show ?case
    unfolding add_all_snoc save_article_articles
    by (auto simp add: list_ex_iff)
qed

lemma stored_first:
  "articles s = [] \<Longrightarrow> b \<in> set (articles (foldl (save_article ev) s as)) \<Longrightarrow>
   List.find (\<lambda>a. url a = url b) as = Some b"
proof (induction as arbitrary: b rule: rev_induct)
  case Nil
  then show ?case by simp
next
  case (snoc a as)
  let ?t = "foldl (save_article ev) s as"
  have urls: "url ` set (articles ?t) = url ` set as"
    using stored_urls [of ev s as] snoc.prems(1) by simp
  show ?case
  proof (cases "b \<in> set (articles ?t)")
    case True
    then have "List.find (\<lambda>a. url a = url b) as = Some b"
      using snoc.IH snoc.prems(1) by blast
    then show ?thesis by (simp add: find_snoc)
  next
    case False
    with snoc.prems(2) have new: "\<not> list_ex (\<lambda>c. url c = url a) (articles ?t)" and "b = a"
      unfolding add_all_snoc save_article_articles by (auto split: if_splits)
    from new have "url a \<notin> url ` set (articles ?t)"
      by (auto simp add: list_ex_iff)
    then have "url a \<notin> url ` set as"
      using urls by simp
    then have "List.find (\<lambda>c. url c = url a) as = None"
      unfolding find_None_iff by (metis imageI)
    with \<open>b = a\<close> show ?thesis by (simp add: find_snoc)
  qed
qed


lemma save_json_checkpoints: "checkpoints (trace (save_json ev s)) = Suc (checkpoints (trace s))"
  by (simp add: save_json_def Let_def checkpoints_def is_checkpoint_def split: option.splits)



subsection \<open>The trace\<close>

lemma save_article_frontier:
  "queue (save_article ev s a) = queue s"
  "visited_urls (save_article ev s a) = visited_urls s"
  "max_pages (save_article ev s a) = max_pages s"
  by (simp_all add: save_article_def save_json_def Let_def split: option.splits)

lemma save_json_frontier:
  "queue (save_json ev s) = queue s"
  "visited_urls (save_json ev s) = visited_urls s"
  by (simp_all add: save_json_def Let_def split: option.splits)

lemma save_json_trace: "\<exists>ex. trace (save_json ev s) = trace s @ ex \<and> log_only ex"
  by (cases "articles_file s") (simp_all add: save_json_def Let_def log_only_def is_get_def)

lemma save_article_trace: "\<exists>ex. trace (save_article ev s a) = trace s @ ex \<and> log_only ex"
proof (cases "list_ex (\<lambda>b. url b = url a) (articles s)")
  case True
  then have "trace (save_article ev s a) = trace s @ []"
    by (simp add: save_article_def)
  then show ?thesis by (metis log_only_def empty_iff list.set(1))
next
  case False
  define s1 where "s1 = s\<lparr>articles := articles s @ [a], trace := trace s @ [LogSaved (url a)]\<rparr>"
  have one: "trace s1 = trace s @ [LogSaved (url a)]"
    by (simp add: s1_def)
  have "save_article ev s a = s1 \<or> save_article ev s a = save_json ev s1"
    using False by (simp add: save_article_def Let_def s1_def)
  then show ?thesis
  proof
    assume "save_article ev s a = s1"
    with one show ?thesis
      by (auto simp add: log_only_def is_get_def)
  next
    assume eq: "save_article ev s a = save_json ev s1"
    obtain ex where "trace (save_json ev s1) = trace s1 @ ex" and "log_only ex"
      using save_json_trace by blast
    with one eq have "trace (save_article ev s a) = trace s @ (LogSaved (url a) # ex)
        \<and> log_only (LogSaved (url a) # ex)"
      by (simp add: log_only_def is_get_def)
    then show ?thesis by blast
  qed
qed

lemma fetch_count_append: "fetch_count u (xs @ ys) = fetch_count u xs + fetch_count u ys"
  by (simp add: fetch_count_def)

lemma fetch_count_log_only: "log_only ex \<Longrightarrow> fetch_count u ex = 0"
  by (simp add: fetch_count_def log_only_def)

lemma GetOk_log_only: "log_only ex \<Longrightarrow> GetOk u \<notin> set ex"
  by (auto simp add: log_only_def is_get_def)

lemma dropWhile_absent: "x \<notin> set xs \<Longrightarrow> dropWhile (\<lambda>e. e \<noteq> x) xs = []"
  by (induction xs) auto

lemma dropWhile_absent_append:
  "x \<notin> set xs \<Longrightarrow> dropWhile (\<lambda>e. e \<noteq> x) (xs @ ys) = dropWhile (\<lambda>e. e \<noteq> x) ys"
  by (induction xs) auto

lemma dropWhile_present_append:
  "x \<in> set xs \<Longrightarrow>
   dropWhile (\<lambda>e. e \<noteq> x) (xs @ ys) = dropWhile (\<lambda>e. e \<noteq> x) xs @ ys
   \<and> dropWhile (\<lambda>e. e \<noteq> x) xs \<noteq> []"
  by (induction xs) auto

lemma refetches_absent: "GetOk u \<notin> set tr \<Longrightarrow> refetches u tr = 0"
  by (simp add: refetches_def fetch_count_def dropWhile_absent)

lemma refetches_append:
  "refetches u (tr @ ex) =
     (if GetOk u \<in> set tr then refetches u tr + fetch_count u ex else refetches u ex)"
proof (cases "GetOk u \<in> set tr")
  case True
  with dropWhile_present_append [of "GetOk u" tr ex] show ?thesis
    by (simp add: refetches_def fetch_count_append)
next
  case False
  with dropWhile_absent_append [of "GetOk u" tr ex] show ?thesis
    by (simp add: refetches_def)
qed

lemma refetches_log_only:
  assumes "log_only ex"
  shows "refetches u (tr @ ex) = refetches u tr"
proof -
  have "refetches u ex = 0"
    using assms by (simp add: refetches_absent GetOk_log_only)
  then show ?thesis
    using assms by (simp add: refetches_append fetch_count_log_only refetches_absent)
qed

lemma refetches_get:
  assumes "is_get v e" and "GetOk v \<notin> set tr"
  shows "refetches u (tr @ [e]) = refetches u tr"
proof (cases "u = v")
  case True
  have "refetches u [e] = 0"
    by (simp add: refetches_def fetch_count_def)
  then show ?thesis
    using True assms(2) by (simp add: refetches_append refetches_absent)
next
  case False
  with assms(1) have "\<not> is_get u e" and "e \<noteq> GetOk u"
    by (auto simp add: is_get_def)
  then have "fetch_count u [e] = 0" and "refetches u [e] = 0"
    by (simp_all add: fetch_count_def refetches_def)
  then show ?thesis
    by (simp add: refetches_append refetches_absent)
qed

lemma ok_count_le: "length (filter (\<lambda>e. e = GetOk u) tr) \<le> Suc (refetches u tr)"
proof (induction tr)
  case Nil
  show ?case by simp
next
  case (Cons e tr)
  have "length (filter (\<lambda>e. e = GetOk u) tr) \<le> fetch_count u tr"
    unfolding fetch_count_def
    by (induction tr) (auto simp add: is_get_def)
  with Cons show ?case
    by (auto simp add: refetches_def)
qed

subsection \<open>The loop\<close>

lemma offer_links_simps:
  "visited_urls (offer_links u links s) = visited_urls s"
  "trace (offer_links u links s)
     = trace s @ [Offer u (filter (\<lambda>l. l \<notin> set (visited_urls s)) links)]"
  "set (queue (offer_links u links s))
     = set (queue s) \<union> {l \<in> set links. l \<notin> set (visited_urls s)}"
  by (auto simp add: offer_links_def Let_def)

lemma log_only_Offer: "log_only [Offer u links]"
  by (simp add: log_only_def is_get_def)

lemma log_only_append: "log_only xs \<Longrightarrow> log_only ys \<Longrightarrow> log_only (xs @ ys)"
  by (auto simp add: log_only_def)

lemma loop_body_cases
  [consumes 2, case_names skip failed interrupted raised links_raised stored]:
  assumes "u = pop_url ev n s" and "s1 = s\<lparr>queue := removeAll u (queue s)\<rparr>"
  obtains
    (skip) "u \<in> set (visited_urls s)" "loop_body ev n s = Inr s1"
  | (failed) "u \<notin> set (visited_urls s)" "requests_get ev n u = RequestException"
      "loop_body ev n s = Inr (s1\<lparr>trace := trace s @ [GetFailed u, LogCrawlError u]\<rparr>)"
  | (interrupted) "u \<notin> set (visited_urls s)" "requests_get ev n u = Interrupted"
      "loop_body ev n s = Inl (KeyboardInterrupt, s1\<lparr>trace := trace s @ [GetInterrupted u]\<rparr>)"
  | (raised) sp e where "u \<notin> set (visited_urls s)" "requests_get ev n u = Response sp"
      "extract_article_data ev n u sp = Inl e"
      "loop_body ev n s = Inl (e, s1\<lparr>trace := trace s @ [GetOk u]\<rparr>)"
  | (links_raised) sp a e s3 where "u \<notin> set (visited_urls s)"
      "requests_get ev n u = Response sp"
      "extract_article_data ev n u sp = Inr a"
      "s3 = save_article ev (s1\<lparr>trace := trace s @ [GetOk u]\<rparr>) a"
      "extract_links ev sp u = Inl e"
      "loop_body ev n s = Inl (e, s3)"
  | (stored) sp a s3 links where "u \<notin> set (visited_urls s)"
      "requests_get ev n u = Response sp"
      "extract_article_data ev n u sp = Inr a"
      "s3 = save_article ev (s1\<lparr>trace := trace s @ [GetOk u]\<rparr>) a"
      "extract_links ev sp u = Inr links"
      "loop_body ev n s =
         Inr ((offer_links u links s3)\<lparr>visited_urls := List.insert u (visited_urls s3)\<rparr>)"
proof (cases "u \<in> set (visited_urls s)")
  case True
  then show ?thesis
    using assms skip by (simp add: loop_body_def Let_def)
next
  case False
  show ?thesis
  proof (cases "requests_get ev n u")
    case RequestException
    then show ?thesis
      using assms False failed by (simp add: loop_body_def Let_def)
  next
    case Interrupted
    then show ?thesis
      using assms False interrupted by (simp add: loop_body_def Let_def)
  next
    case (Response sp)
    show ?thesis
    proof (cases "extract_article_data ev n u sp")
      case (Inl e)
      then show ?thesis
        using assms False Response raised by (simp add: loop_body_def Let_def)
    next
      case (Inr a)
      show ?thesis
      proof (cases "extract_links ev sp u")
        case (Inl e)
        then show ?thesis
          using assms False Response Inr links_raised [of sp a]
          by (simp add: loop_body_def Let_def)
      next
        case inr: (Inr links)
        then show ?thesis
          using assms False Response Inr stored [of sp a]
          by (simp add: loop_body_def Let_def offer_links_simps)
      qed
    qed
  qed
qed

lemma loop_body_no_refetch:
  assumes fv: "fetched_visited s" and nr: "no_refetch s"
  shows "case loop_body ev n s of
           Inr s' \<Rightarrow> fetched_visited s' \<and> no_refetch s'
         | Inl (e, s') \<Rightarrow> no_refetch s'"
proof -
  define u where "u = pop_url ev n s"
  define s1 where "s1 = s\<lparr>queue := removeAll u (queue s)\<rparr>"
  have fresh: "GetOk u \<notin> set (trace s)" if "u \<notin> set (visited_urls s)"
    using fv that by (auto simp add: fetched_visited_def)
  have after_save: "refetches v (trace s3) = refetches v (trace s)
      \<and> (GetOk v \<in> set (trace s3) \<longrightarrow> v = u \<or> GetOk v \<in> set (trace s))
      \<and> visited_urls s3 = visited_urls s"
    if nv: "u \<notin> set (visited_urls s)"
      and s3: "s3 = save_article ev (s1\<lparr>trace := trace s @ [GetOk u]\<rparr>) a" for s3 a v
  proof -
    obtain ex where tr3: "trace s3 = (trace s @ [GetOk u]) @ ex" and lo: "log_only ex"
      using save_article_trace [of ev "s1\<lparr>trace := trace s @ [GetOk u]\<rparr>" a] s3
      by auto
    have "visited_urls s3 = visited_urls s"
      by (simp add: s3 save_article_frontier s1_def)
    moreover have "refetches v (trace s3) = refetches v (trace s)"
      using refetches_get [of u "GetOk u" "trace s" v] fresh [OF nv] lo
      by (simp only: tr3 refetches_log_only) (simp add: is_get_def)
    moreover have "GetOk v \<in> set (trace s3) \<longrightarrow> v = u \<or> GetOk v \<in> set (trace s)"
      using GetOk_log_only [OF lo, of v] by (auto simp add: tr3)
    ultimately show ?thesis by blast
  qed
  show ?thesis
    using u_def s1_def
  proof (cases rule: loop_body_cases)
    case skip
    with fv nr show ?thesis
      by (simp add: s1_def fetched_visited_def no_refetch_def)
  next
    case failed
    have "log_only [LogCrawlError u]"
      by (simp add: log_only_def is_get_def)
    then have "refetches v ((trace s @ [GetFailed u]) @ [LogCrawlError u]) = refetches v (trace s)" for v
      using refetches_get [of u "GetFailed u" "trace s" v] fresh [OF failed(1)]
      by (simp only: refetches_log_only) (simp add: is_get_def)
    with fv nr failed(3) show ?thesis
      by (simp add: s1_def fetched_visited_def no_refetch_def)
  next
    case interrupted
    have "refetches v (trace s @ [GetInterrupted u]) = refetches v (trace s)" for v
      using refetches_get [of u "GetInterrupted u" "trace s" v] fresh [OF interrupted(1)]
      by (simp add: is_get_def)
    with nr interrupted(3) show ?thesis
      by (simp add: s1_def no_refetch_def)
  next
    case (raised sp e)
    have "refetches v (trace s @ [GetOk u]) = refetches v (trace s)" for v
      using refetches_get [of u "GetOk u" "trace s" v] fresh [OF raised(1)]
      by (simp add: is_get_def)
    with nr raised(4) show ?thesis
      by (simp add: s1_def no_refetch_def)
  next
    case (links_raised sp a e s3)
    from after_save [OF links_raised(1,4)] nr links_raised(6) show ?thesis
      by (simp add: no_refetch_def)
  next
    case (stored sp a s3 links)
    note save = after_save [OF stored(1,4)]
    have "refetches v (trace (offer_links u links s3)) = refetches v (trace s)" for v
      using save [of v] by (simp add: offer_links_simps refetches_log_only log_only_Offer)
    moreover have "GetOk v \<in> set (trace (offer_links u links s3))
        \<longrightarrow> v = u \<or> GetOk v \<in> set (trace s)" for v
      using save [of v] by (auto simp add: offer_links_simps)
    ultimately show ?thesis
      using fv nr stored(6) save
      by (auto simp add: fetched_visited_def no_refetch_def)
  qed
qed

lemma crawl_loop_no_refetch:
  "fetched_visited s \<Longrightarrow> no_refetch s \<Longrightarrow> no_refetch (snd (crawl_loop ev n s))"
proof (induction ev n s rule: crawl_loop.induct)
  case (1 ev n s)
  show ?case
  proof (cases "loop_cond s")
    case False
    with "1.prems" show ?thesis
      by (subst crawl_loop.simps) simp
  next
    case True
    show ?thesis
    proof (cases "loop_body ev n s")
      case (Inl raised)
      with True loop_body_no_refetch [OF "1.prems", of ev n] show ?thesis
        by (subst crawl_loop.simps) (auto split: prod.splits)
    next
      case (Inr s')
      with loop_body_no_refetch [OF "1.prems", of ev n]
      have "fetched_visited s'" and "no_refetch s'"
        by simp_all
      with "1.IH" [OF True Inr] have "no_refetch (snd (crawl_loop ev (Suc n) s'))"
        by simp
      with True Inr show ?thesis
        by (subst crawl_loop.simps) simp
    qed
  qed
qed

lemma crawl_snd: "snd (crawl ev s) = save_json ev (snd (crawl_loop ev 0 s))"
  by (simp add: crawl_def split: prod.splits)

lemma crawl_no_refetch:
  assumes "fetched_visited s" and "no_refetch s"
  shows "no_refetch (snd (crawl ev s))"
proof -
  from assms have loop: "no_refetch (snd (crawl_loop ev 0 s))"
    by (rule crawl_loop_no_refetch)
  obtain ex where "trace (save_json ev (snd (crawl_loop ev 0 s)))
      = trace (snd (crawl_loop ev 0 s)) @ ex" and "log_only ex"
    using save_json_trace by blast
  with loop show ?thesis
    by (simp add: crawl_snd no_refetch_def refetches_log_only)
qed

lemma loop_body_visited_fetched:
  assumes vf: "visited_fetched s"
  shows "case loop_body ev n s of
           Inr s' \<Rightarrow> visited_fetched s'
         | Inl (e, s') \<Rightarrow> visited_fetched s'"
proof -
  define u where "u = pop_url ev n s"
  define s1 where "s1 = s\<lparr>queue := removeAll u (queue s)\<rparr>"
  have after_save: "set (trace s) \<subseteq> set (trace s3) \<and> GetOk u \<in> set (trace s3)
      \<and> visited_urls s3 = visited_urls s"
    if s3: "s3 = save_article ev (s1\<lparr>trace := trace s @ [GetOk u]\<rparr>) a" for s3 a
  proof -
    obtain ex where "trace s3 = (trace s @ [GetOk u]) @ ex"
      using save_article_trace [of ev "s1\<lparr>trace := trace s @ [GetOk u]\<rparr>" a] s3
      by auto
    moreover have "visited_urls s3 = visited_urls s"
      by (simp add: s3 save_article_frontier s1_def)
    ultimately show ?thesis by auto
  qed
  show ?thesis
    using u_def s1_def
  proof (cases rule: loop_body_cases)
    case skip
    with vf show ?thesis by (simp add: s1_def visited_fetched_def)
  next
    case failed
    with vf show ?thesis by (simp add: s1_def visited_fetched_def)
  next
    case interrupted
    with vf show ?thesis by (simp add: s1_def visited_fetched_def)
  next
    case (raised sp e)
    with vf show ?thesis by (simp add: s1_def visited_fetched_def)
  next
    case (links_raised sp a e s3)
    from after_save [OF links_raised(4)] vf links_raised(6) show ?thesis
      by (auto simp add: visited_fetched_def)
  next
    case (stored sp a s3 links)
    from after_save [OF stored(4)] vf stored(6) show ?thesis
      by (auto simp add: visited_fetched_def offer_links_simps)
  qed
qed

lemma crawl_loop_visited_fetched:
  "visited_fetched s \<Longrightarrow> visited_fetched (snd (crawl_loop ev n s))"
proof (induction ev n s rule: crawl_loop.induct)
  case (1 ev n s)
  show ?case
  proof (cases "loop_cond s")
    case False
    with "1.prems" show ?thesis
      by (subst crawl_loop.simps) simp
  next
    case True
    show ?thesis
    proof (cases "loop_body ev n s")
      case (Inl raised)
      with True loop_body_visited_fetched [OF "1.prems", of ev n] show ?thesis
        by (subst crawl_loop.simps) (auto split: prod.splits)
    next
      case (Inr s')
      with loop_body_visited_fetched [OF "1.prems", of ev n]
      have "visited_fetched s'"
        by simp
      with "1.IH" [OF True Inr] have "visited_fetched (snd (crawl_loop ev (Suc n) s'))"
        by simp
      with True Inr show ?thesis
        by (subst crawl_loop.simps) simp
    qed
  qed
qed

lemma crawl_visited_fetched:
  assumes "visited_fetched s"
  shows "visited_fetched (snd (crawl ev s))"
proof -
  from assms have loop: "visited_fetched (snd (crawl_loop ev 0 s))"
    by (rule crawl_loop_visited_fetched)
  obtain ex where "trace (save_json ev (snd (crawl_loop ev 0 s)))
      = trace (snd (crawl_loop ev 0 s)) @ ex"
    using save_json_trace by blast
  with loop show ?thesis
    by (simp add: crawl_snd visited_fetched_def save_json_frontier)
qed

lemma offered_itself_append:
  "offered_itself u (xs @ ys) \<longleftrightarrow> offered_itself u xs \<or> offered_itself u ys"
  by (auto simp add: offered_itself_def list_ex_iff)

lemma both_self_offered_mono:
  assumes "both_self_offered s"
    and "set (queue t) \<inter> set (visited_urls t) \<subseteq> set (queue s) \<inter> set (visited_urls s)"
    and "trace t = trace s @ ex"
  shows "both_self_offered t"
  using assms by (auto simp add: both_self_offered_def offered_itself_append)

lemma body_points_self_offered:
  assumes inv: "both_self_offered s"
  shows "\<forall>t \<in> set (body_points ev n s). both_self_offered t"
proof -
  define u where "u = pop_url ev n s"
  define s1 where "s1 = s\<lparr>queue := removeAll u (queue s)\<rparr>"
  have d1: "both_self_offered s1"
    by (rule both_self_offered_mono [OF inv, of _ "[]"]) (auto simp add: s1_def)
  have d1t: "both_self_offered (s1\<lparr>trace := trace s1 @ ex\<rparr>)" for ex
    by (rule both_self_offered_mono [OF d1, of _ ex]) simp_all
  have notq: "u \<notin> set (queue s1)"
    by (simp add: s1_def)
  show ?thesis
  proof (cases "u \<in> set (visited_urls s)")
    case True
    with d1 show ?thesis
      by (simp add: body_points_def Let_def u_def [symmetric] s1_def)
  next
    case False
    show ?thesis
    proof (cases "requests_get ev n u")
      case RequestException
      with False d1 d1t [of "[GetFailed u, LogCrawlError u]"] show ?thesis
        by (simp add: body_points_def Let_def u_def [symmetric] s1_def)
    next
      case Interrupted
      with False d1 d1t [of "[GetInterrupted u]"] show ?thesis
        by (simp add: body_points_def Let_def u_def [symmetric] s1_def)
    next
      case (Response sp)
      define s2 where "s2 = s1\<lparr>trace := trace s1 @ [GetOk u]\<rparr>"
      have d2: "both_self_offered s2"
        unfolding s2_def by (rule d1t)
      show ?thesis
      proof (cases "extract_article_data ev n u sp")
        case (Inl e)
        with False Response d1 d2 show ?thesis
          by (simp add: body_points_def Let_def u_def [symmetric] s1_def s2_def)
      next
        case (Inr a)
        define s3 where "s3 = save_article ev s2 a"
        have q3: "queue s3 = queue s1" and v3: "visited_urls s3 = visited_urls s1"
          by (simp_all add: s3_def s2_def save_article_frontier)
        obtain ex where tr3: "trace s3 = trace s2 @ ex"
          using save_article_trace [of ev s2 a] by (auto simp add: s3_def)
        have d3: "both_self_offered s3"
          by (rule both_self_offered_mono [OF d2 _ tr3]) (simp add: q3 v3 s2_def)
        show ?thesis
        proof (cases "extract_links ev sp u")
          case (Inl e)
          have "body_points ev n s = [s1, s2, s3]"
            using False Response Inr Inl
            by (simp add: body_points_def Let_def u_def [symmetric] s3_def s2_def s1_def)
          with d1 d2 d3 show ?thesis by simp
        next
          case links: (Inr new_links)
          define s4 where "s4 = offer_links u new_links s3"
          define s5 where "s5 = s4\<lparr>visited_urls := List.insert u (visited_urls s4)\<rparr>"
          have d4: "both_self_offered s4"
            by (rule both_self_offered_mono [OF d3, of _ "[Offer u (filter (\<lambda>l. l \<notin> set (visited_urls s3)) new_links)]"])
               (auto simp add: s4_def offer_links_simps)
          have self: "offered_itself u (trace s4)" if "u \<in> set (queue s4)"
          proof -
            from that notq have "u \<in> set new_links" and "u \<notin> set (visited_urls s3)"
              by (auto simp add: s4_def offer_links_simps q3)
            then show ?thesis
              by (simp add: s4_def offer_links_simps offered_itself_append)
                 (simp add: offered_itself_def)
          qed
          have d5: "both_self_offered s5"
            using d4 self by (auto simp add: both_self_offered_def s5_def)
          have "body_points ev n s = [s1, s2, s3, s4, s5]"
            using False Response Inr links
            by (simp add: body_points_def Let_def u_def [symmetric] s5_def s4_def s3_def
                s2_def s1_def)
          with d1 d2 d3 d4 d5 show ?thesis by simp
        qed
      qed
    qed
  qed
qed

lemma loop_body_last:
  "(case loop_body ev n s of Inl (e, s') \<Rightarrow> s' | Inr s' \<Rightarrow> s') = last (body_points ev n s)"
  by (simp add: loop_body_def body_points_def Let_def split: fetch_result.splits sum.splits)

lemma body_points_nonempty: "body_points ev n s \<noteq> []"
  by (simp add: body_points_def Let_def split: fetch_result.splits sum.splits)

lemma loop_body_self_offered:
  assumes "both_self_offered s" and "loop_body ev n s = Inr s'"
  shows "both_self_offered s'"
proof -
  have "s' = last (body_points ev n s)"
    using loop_body_last [of ev n s] assms(2) by simp
  then have "s' \<in> set (body_points ev n s)"
    using body_points_nonempty [of ev n s] by simp
  with body_points_self_offered [OF assms(1)] show ?thesis by blast
qed

lemma crawl_states_self_offered:
  "both_self_offered s \<Longrightarrow> \<forall>t \<in> set (crawl_states ev n s). both_self_offered t"
proof (induction ev n s rule: crawl_states.induct)
  case (1 ev n s)
  show ?case
  proof (cases "loop_cond s")
    case False
    with "1.prems" show ?thesis
      by (subst crawl_states.simps) simp
  next
    case True
    note points = body_points_self_offered [OF "1.prems", of ev n]
    show ?thesis
    proof (cases "loop_body ev n s")
      case (Inl raised)
      with True "1.prems" points show ?thesis
        by (subst crawl_states.simps) (auto split: prod.splits)
    next
      case (Inr s')
      have "both_self_offered s'"
        using "1.prems" Inr by (rule loop_body_self_offered)
      with "1.IH" [OF True Inr]
      have "\<forall>t \<in> set (crawl_states ev (Suc n) s'). both_self_offered t"
        by simp
      with True Inr "1.prems" points show ?thesis
        by (subst crawl_states.simps) auto
    qed
  qed
qed

lemma crawl_loop_observed: "snd (crawl_loop ev n s) \<in> set (crawl_states ev n s)"
proof (induction ev n s rule: crawl_loop.induct)
  case (1 ev n s)
  show ?case
  proof (cases "loop_cond s")
    case False
    then show ?thesis
      by (subst crawl_loop.simps, subst crawl_states.simps) simp
  next
    case True
    show ?thesis
    proof (cases "loop_body ev n s")
      case (Inl raised)
      obtain e s' where raised: "raised = (e, s')"
        by (cases raised)
      have "s' = last (body_points ev n s)"
        using loop_body_last [of ev n s] Inl raised by simp
      then have "s' \<in> set (body_points ev n s)"
        using body_points_nonempty [of ev n s] by simp
      with True Inl raised show ?thesis
        by (subst crawl_loop.simps, subst crawl_states.simps) simp
    next
      case (Inr s')
      with True "1.IH" [OF True Inr] show ?thesis
        by (subst crawl_loop.simps, subst crawl_states.simps) simp
    qed
  qed
qed

lemma first_match_skip:
  "\<forall>p \<in> set pre. select_one sp p = None \<Longrightarrow>
   first_match sp (pre @ rest) = first_match sp rest"
  by (induction pre) simp_all

subsection \<open>The parser of URLs\<close>

lemma urlparse_unbalanced_bracket:
  "urlparse ev ''http://[www.novinky.cz/clanek/x'' = Inl ValueError"
  by (simp add: urlparse_def url_clean_def strip_scheme_def netloc_delim_def Let_def
      scheme_char_def is_alpha_def is_digit_def)

lemma is_valid_article_url_raises:
  "urlparse ev u = Inl e \<Longrightarrow> is_valid_article_url ev u = Inl e"
  by (simp add: is_valid_article_url_def)

section \<open>The claims\<close>

subsection \<open>C1: fetches per URL\<close>

text \<open>
  C1, as stated, says that no URL is fetched twice. A URL whose fetch fails is not put into
  the visited set: here page a offers b and c, b fails, page c offers b again, and b is
  fetched a second time.
\<close>

theorem C1_refetch_counterexample:
  "fetch_count url_b (trace (snd (crawl (stub_env get_b_fails) (NewsCrawler [url_a] 10 None)))) = 2"
  by code_simp

text \<open>
  C1, amended: over any complete run of \<open>crawl\<close> from a new crawler, no URL is fetched
  again after a fetch of it has succeeded, so every URL is fetched successfully at most
  once.
\<close>

theorem C1_no_fetch_after_success:
  "refetches u (trace (snd (crawl ev (NewsCrawler starts maxp file)))) = 0
   \<and> length (filter (\<lambda>e. e = GetOk u) (trace (snd (crawl ev (NewsCrawler starts maxp file))))) \<le> 1"
proof -
  have "fetched_visited (NewsCrawler starts maxp file)" and "no_refetch (NewsCrawler starts maxp file)"
    by (simp_all add: NewsCrawler_def fetched_visited_def no_refetch_def refetches_def fetch_count_def)
  then have "no_refetch (snd (crawl ev (NewsCrawler starts maxp file)))"
    by (rule crawl_no_refetch)
  then have zero: "refetches u (trace (snd (crawl ev (NewsCrawler starts maxp file)))) = 0"
    by (simp add: no_refetch_def)
  with ok_count_le [of u "trace (snd (crawl ev (NewsCrawler starts maxp file)))"]
  show ?thesis by simp
qed

text \<open>
  C1, an instance: in the run above the seed a is fetched once, and not again after that.
\<close>

theorem C1_no_fetch_after_success_witness:
  "refetches url_a (trace (snd (crawl (stub_env get_b_fails) (NewsCrawler [url_a] 10 None)))) = 0
   \<and> fetch_count url_a (trace (snd (crawl (stub_env get_b_fails) (NewsCrawler [url_a] 10 None)))) = 1"
proof -
  have "fetch_count url_a (trace (snd (crawl (stub_env get_b_fails) (NewsCrawler [url_a] 10 None)))) = 1"
    by code_simp
  with C1_no_fetch_after_success [of url_a "stub_env get_b_fails" "[url_a]" 10 None]
  show ?thesis by simp
qed

subsection \<open>C2: a failed fetch\<close>

text \<open>
  C2, as stated, says that a URL whose fetch raises a transport error is added to the
  visited set. In the run above the fetch of b fails and b is not in the visited set when
  the crawl is over.
\<close>

theorem C2_failed_not_visited_counterexample:
  "GetFailed url_b \<in> set (trace (snd (crawl (stub_env get_b_fails) (NewsCrawler [url_a] 10 None))))
   \<and> url_b \<notin> set (visited_urls (snd (crawl (stub_env get_b_fails) (NewsCrawler [url_a] 10 None))))"
  by code_simp

text \<open>
  C2, amended: when the fetch of the popped URL raises a transport error, the iteration
  logs the failure and the loop goes on; no record is produced, the output file and the
  visited set are as before, and the URL is neither in the visited set nor in the queue.
  Over a whole run from a new crawler, a URL is in the visited set only if a fetch of it
  has succeeded.
\<close>

theorem C2_failed_fetch:
  assumes "loop_cond s"
    and "u = pop_url ev n s"
    and "u \<notin> set (visited_urls s)"
    and "requests_get ev n u = RequestException"
  shows "(\<exists>s'. loop_body ev n s = Inr s'
      \<and> trace s' = trace s @ [GetFailed u, LogCrawlError u]
      \<and> articles s' = articles s
      \<and> articles_file s' = articles_file s
      \<and> visited_urls s' = visited_urls s
      \<and> u \<notin> set (visited_urls s')
      \<and> u \<notin> set (queue s'))
    \<and> (\<forall>v \<in> set (visited_urls (snd (crawl ev (NewsCrawler starts maxp file)))).
          GetOk v \<in> set (trace (snd (crawl ev (NewsCrawler starts maxp file)))))"
proof -
  have "loop_body ev n s =
           Inr (s\<lparr>queue := removeAll u (queue s),
                  trace := trace s @ [GetFailed u, LogCrawlError u]\<rparr>)"
    using assms(2,3,4) by (simp add: loop_body_def Let_def)
  then have step: "\<exists>s'. loop_body ev n s = Inr s'
      \<and> trace s' = trace s @ [GetFailed u, LogCrawlError u]
      \<and> articles s' = articles s
      \<and> articles_file s' = articles_file s
      \<and> visited_urls s' = visited_urls s
      \<and> u \<notin> set (visited_urls s')
      \<and> u \<notin> set (queue s')"
    using assms(3) by simp
  have "visited_fetched (NewsCrawler starts maxp file)"
    by (simp add: visited_fetched_def NewsCrawler_def)
  then have "visited_fetched (snd (crawl ev (NewsCrawler starts maxp file)))"
    by (rule crawl_visited_fetched)
  with step show ?thesis
    by (simp add: visited_fetched_def)
qed

text \<open>
  C2, an instance: a crawler seeded with b alone, whose fetch fails; and the run above, in
  which the visited URLs are c and a, both fetched successfully.
\<close>

theorem C2_failed_fetch_witness:
  "loop_cond (NewsCrawler [url_b] 10 None)
   \<and> url_b = pop_url (stub_env get_b_fails) 0 (NewsCrawler [url_b] 10 None)
   \<and> url_b \<notin> set (visited_urls (NewsCrawler [url_b] 10 None))
   \<and> requests_get (stub_env get_b_fails) 0 url_b = RequestException
   \<and> (\<exists>s'. loop_body (stub_env get_b_fails) 0 (NewsCrawler [url_b] 10 None) = Inr s'
         \<and> trace s' = [GetFailed url_b, LogCrawlError url_b]
         \<and> visited_urls s' = []
         \<and> queue s' = [])
   \<and> visited_urls (snd (crawl (stub_env get_b_fails) (NewsCrawler [url_a] 10 None)))
       = [url_c, url_a]
   \<and> GetOk url_c \<in> set (trace (snd (crawl (stub_env get_b_fails) (NewsCrawler [url_a] 10 None))))
   \<and> GetOk url_a \<in> set (trace (snd (crawl (stub_env get_b_fails) (NewsCrawler [url_a] 10 None))))"
proof -
  have 1: "loop_cond (NewsCrawler [url_b] 10 None)"
    by (simp add: loop_cond_def NewsCrawler_def)
  have 2: "url_b = pop_url (stub_env get_b_fails) 0 (NewsCrawler [url_b] 10 None)"
    by (simp add: pop_url_def NewsCrawler_def)
  have 3: "url_b \<notin> set (visited_urls (NewsCrawler [url_b] 10 None))"
    by (simp add: NewsCrawler_def)
  have 4: "requests_get (stub_env get_b_fails) 0 url_b = RequestException"
    by (simp add: stub_env_def get_b_fails_def url_a_def url_b_def url_c_def)
  have 5: "queue (NewsCrawler [url_b] 10 None) = [url_b]"
    by (simp add: NewsCrawler_def)
  have 6: "visited_urls (snd (crawl (stub_env get_b_fails) (NewsCrawler [url_a] 10 None)))
       = [url_c, url_a]"
    by code_simp
  note inst = C2_failed_fetch [OF 1 2 3 4, of "[url_a]" 10 None]
  obtain s' where body: "loop_body (stub_env get_b_fails) 0 (NewsCrawler [url_b] 10 None) = Inr s'"
    and tr: "trace s' = trace (NewsCrawler [url_b] 10 None) @ [GetFailed url_b, LogCrawlError url_b]"
    and vis: "visited_urls s' = visited_urls (NewsCrawler [url_b] 10 None)"
    using inst by blast
  have "queue s' = []"
    using body 2 3 4 5 by (auto simp add: loop_body_def Let_def)
  with body tr vis have step: "\<exists>s'. loop_body (stub_env get_b_fails) 0 (NewsCrawler [url_b] 10 None) = Inr s'
         \<and> trace s' = [GetFailed url_b, LogCrawlError url_b]
         \<and> visited_urls s' = []
         \<and> queue s' = []"
    by (simp add: NewsCrawler_def)
  have "GetOk url_c \<in> set (trace (snd (crawl (stub_env get_b_fails) (NewsCrawler [url_a] 10 None))))"
    and "GetOk url_a \<in> set (trace (snd (crawl (stub_env get_b_fails) (NewsCrawler [url_a] 10 None))))"
    using inst 6 by simp_all
  with 1 2 3 4 6 step show ?thesis by blast
qed

subsection \<open>C3: extraction\<close>

text \<open>
  C3 says that \<open>extract_article_data\<close> returns a record for every page and never raises.
  On a page whose date tag has neither a \<^verbatim>\<open>content\<close> nor a \<^verbatim>\<open>datetime\<close> attribute,
  \<^verbatim>\<open>date_str\<close> is \<^verbatim>\<open>None\<close> and \<^verbatim>\<open>date_str.replace\<close> raises \<^verbatim>\<open>AttributeError\<close>, which the
  \<^verbatim>\<open>except (ValueError, TypeError)\<close> of \<open>extract_date\<close> does not catch: no record is
  returned, whatever the URL and the world.
\<close>

theorem C3_extract_article_data_raises:
  "extract_article_data ev n u soup_bare_date = Inl AttributeError"
  by (simp add: extract_article_data_def extract_date_def date_selectors_def soup_bare_date_def
      el_get_def)

subsection \<open>C4: the final flush\<close>

text \<open>
  C4: however the loop ends, with or without an exception, \<open>crawl\<close> calls \<open>save_json\<close> on
  the state the loop ended in, once, and hands on the loop's exception: the run's trace is
  the loop's trace followed by the one line that \<open>save_json\<close> logs.
\<close>

theorem C4_flush_on_every_exit:
  "crawl ev s = (fst (crawl_loop ev 0 s), save_json ev (snd (crawl_loop ev 0 s)))
   \<and> checkpoints (trace (snd (crawl ev s))) = Suc (checkpoints (trace (snd (crawl_loop ev 0 s))))
   \<and> (\<exists>e. is_checkpoint e \<and> trace (snd (crawl ev s)) = trace (snd (crawl_loop ev 0 s)) @ [e])"
proof -
  have a: "crawl ev s = (fst (crawl_loop ev 0 s), save_json ev (snd (crawl_loop ev 0 s)))"
    by (simp add: crawl_def split: prod.splits)
  have b: "\<exists>e. is_checkpoint e \<and> trace (save_json ev t) = trace t @ [e]" for t
    by (cases "articles_file t") (simp_all add: save_json_def Let_def is_checkpoint_def)
  show ?thesis
    using a b [of "snd (crawl_loop ev 0 s)"] by (simp add: save_json_checkpoints)
qed

text \<open>
  C4, the three exits: the queue runs empty, the page cap is reached with URLs still
  queued, and the operator interrupts a fetch; each run ends with one call of \<open>save_json\<close>.
\<close>

theorem C4_exit_paths_witness:
  "crawl (stub_env get_b_fails) (NewsCrawler [url_a] 10 None)
     = (None, save_json (stub_env get_b_fails)
                (snd (crawl_loop (stub_env get_b_fails) 0 (NewsCrawler [url_a] 10 None))))
   \<and> queue (snd (crawl (stub_env get_b_fails) (NewsCrawler [url_a] 10 None))) = []
   \<and> fst (crawl (stub_env get_b_fails) (NewsCrawler [url_a] 1 None)) = None
   \<and> queue (snd (crawl (stub_env get_b_fails) (NewsCrawler [url_a] 1 None))) = [url_b, url_c]
   \<and> checkpoints (trace (snd (crawl (stub_env get_b_fails) (NewsCrawler [url_a] 1 None)))) = 1
   \<and> fst (crawl (stub_env get_interrupted) (NewsCrawler [url_a] 10 None)) = Some KeyboardInterrupt
   \<and> checkpoints (trace (snd (crawl (stub_env get_interrupted) (NewsCrawler [url_a] 10 None)))) = 1"
proof -
  have 1: "fst (crawl_loop (stub_env get_b_fails) 0 (NewsCrawler [url_a] 10 None)) = None"
    by code_simp
  have 2: "queue (snd (crawl (stub_env get_b_fails) (NewsCrawler [url_a] 10 None))) = []"
    by code_simp
  have 3: "fst (crawl (stub_env get_b_fails) (NewsCrawler [url_a] 1 None)) = None"
    by code_simp
  have 4: "queue (snd (crawl (stub_env get_b_fails) (NewsCrawler [url_a] 1 None))) = [url_b, url_c]"
    by code_simp
  have 5: "checkpoints (trace (snd (crawl (stub_env get_b_fails) (NewsCrawler [url_a] 1 None)))) = 1"
    by code_simp
  have 6: "fst (crawl (stub_env get_interrupted) (NewsCrawler [url_a] 10 None)) = Some KeyboardInterrupt"
    by code_simp
  have 7: "checkpoints (trace (snd (crawl (stub_env get_interrupted) (NewsCrawler [url_a] 10 None)))) = 1"
    by code_simp
  from C4_flush_on_every_exit [of "stub_env get_b_fails" "NewsCrawler [url_a] 10 None"] 1
  have "crawl (stub_env get_b_fails) (NewsCrawler [url_a] 10 None)
     = (None, save_json (stub_env get_b_fails)
                (snd (crawl_loop (stub_env get_b_fails) 0 (NewsCrawler [url_a] 10 None))))"
    by simp
  with 2 3 4 5 6 7 show ?thesis by blast
qed

subsection \<open>C5: the store keeps the first record of a URL\<close>

text \<open>
  C5: \<open>save_article\<close> appends a record exactly when no stored record has its URL; after
  any sequence of adds to a new crawler the stored URLs are pairwise distinct, they are the
  URLs that were added, and each stored record is the first one added with its URL.
\<close>

theorem C5_first_write_wins:
  "articles (save_article ev s a) =
     (if list_ex (\<lambda>b. url b = url a) (articles s) then articles s else articles s @ [a])
   \<and> distinct (map url (articles (foldl (save_article ev) (NewsCrawler starts maxp file) as)))
   \<and> url ` set (articles (foldl (save_article ev) (NewsCrawler starts maxp file) as))
       = url ` set as
   \<and> (\<forall>b \<in> set (articles (foldl (save_article ev) (NewsCrawler starts maxp file) as)).
         List.find (\<lambda>a. url a = url b) as = Some b)"
proof -
  have empty: "articles (NewsCrawler starts maxp file) = []"
    by (simp add: NewsCrawler_def)
  have one: "articles (save_article ev s a) =
     (if list_ex (\<lambda>b. url b = url a) (articles s) then articles s else articles s @ [a])"
    by (rule save_article_articles)
  have two: "distinct (map url (articles (foldl (save_article ev) (NewsCrawler starts maxp file) as)))"
    by (rule stored_distinct) (simp add: empty)
  have three: "url ` set (articles (foldl (save_article ev) (NewsCrawler starts maxp file) as))
       = url ` set as"
    by (simp add: stored_urls empty)
  have four: "\<forall>b \<in> set (articles (foldl (save_article ev) (NewsCrawler starts maxp file) as)).
         List.find (\<lambda>a. url a = url b) as = Some b"
    using stored_first [OF empty] by blast
  from one two three four show ?thesis by blast
qed

text \<open>
  C5, an instance: two records with the same URL and different titles; the first is stored.
\<close>

theorem C5_first_write_wins_witness:
  "articles (foldl (save_article (stub_env get_b_fails)) (NewsCrawler [] 10 None)
      [article_of url_a ''first'', article_of url_a ''second''])
     = [article_of url_a ''first'']
   \<and> List.find (\<lambda>a. url a = url (article_of url_a ''first''))
       [article_of url_a ''first'', article_of url_a ''second'']
     = Some (article_of url_a ''first'')"
proof -
  have stored: "articles (foldl (save_article (stub_env get_b_fails)) (NewsCrawler [] 10 None)
      [article_of url_a ''first'', article_of url_a ''second''])
     = [article_of url_a ''first'']"
    by (simp add: save_article_articles NewsCrawler_def article_of_def)
  with C5_first_write_wins [of "stub_env get_b_fails" _ _ "[]" 10 None
      "[article_of url_a ''first'', article_of url_a ''second'']"]
  show ?thesis by simp
qed

subsection \<open>C6: what a checkpoint leaves in the file\<close>

text \<open>
  C6 says that after a checkpoint the file holds the serialization of the collection and
  nothing else. \<open>save_json\<close> opens the file in mode \<^verbatim>\<open>'r+'\<close>, which does not truncate:
  over a file that held \<^verbatim>\<open>[1, 2, 3]\<close>, the checkpoint of an empty collection writes
  \<^verbatim>\<open>[]\<close> and leaves \<^verbatim>\<open>[], 2, 3]\<close>. When the file does not exist it is not created.
\<close>

theorem C6_save_json_keeps_old_tail:
  "json_dump (stub_env get_b_fails) (articles (NewsCrawler [] 10 (Some ''[1, 2, 3]''))) = ''[]''
   \<and> articles_file (save_json (stub_env get_b_fails) (NewsCrawler [] 10 (Some ''[1, 2, 3]'')))
       = Some ''[], 2, 3]''
   \<and> articles_file (save_json (stub_env get_b_fails) (NewsCrawler [] 10 None)) = None"
  by (simp add: save_json_def NewsCrawler_def stub_env_def)

subsection \<open>C7: when an add checkpoints\<close>


subsection \<open>C8: the URL classifier\<close>

text \<open>
  C8 says that a URL whose path ends with a denylisted extension is rejected. The code
  tests the end of the whole URL string, so the image
  \<^verbatim>\<open>https://www.novinky.cz/clanek/x.jpg?v=1\<close>, whose path is \<^verbatim>\<open>/clanek/x.jpg\<close>, is accepted,
  whatever the world. The three boundary cases of the specification come out as it says.
\<close>

theorem C8_accepts_image_url_with_query:
  "urlparse ev ''https://www.novinky.cz/clanek/x.jpg?v=1''
     = Inr \<lparr>netloc = ''www.novinky.cz'', path = ''/clanek/x.jpg''\<rparr>
   \<and> suffix ''.jpg'' (lower ''/clanek/x.jpg'')
   \<and> is_valid_article_url ev ''https://www.novinky.cz/clanek/x.jpg?v=1'' = Inr True
   \<and> is_valid_article_url ev ''https://www.novinky.cz/clanek/x.jpg'' = Inr False
   \<and> is_valid_article_url ev ''https://www.idnes.cz/zpravy/y'' = Inr True
   \<and> is_valid_article_url ev ''https://www.example.com/clanek/x'' = Inr False"
proof -
  note defs = is_valid_article_url_def urlparse_def url_clean_def strip_scheme_def
    netloc_delim_def Let_def scheme_char_def is_alpha_def is_digit_def is_ascii_def
    valid_domains_def file_extensions_def article_patterns_def lower_def lower_char_def
    sublist_code(3) suffix_to_prefix
  have parsed: "urlparse ev ''https://www.novinky.cz/clanek/x.jpg?v=1''
     = Inr \<lparr>netloc = ''www.novinky.cz'', path = ''/clanek/x.jpg''\<rparr>"
    by (simp add: defs)
  have ends: "suffix ''.jpg'' (lower ''/clanek/x.jpg'')"
    by (simp add: defs)
  have query: "is_valid_article_url ev ''https://www.novinky.cz/clanek/x.jpg?v=1'' = Inr True"
    by (simp add: defs)
  have jpg: "is_valid_article_url ev ''https://www.novinky.cz/clanek/x.jpg'' = Inr False"
    by (simp add: defs)
  have idnes: "is_valid_article_url ev ''https://www.idnes.cz/zpravy/y'' = Inr True"
    by (simp add: defs)
  have example: "is_valid_article_url ev ''https://www.example.com/clanek/x'' = Inr False"
    by (simp add: defs)
  from parsed ends query jpg idnes example show ?thesis by blast
qed

subsection \<open>C9: the queue and the visited set\<close>

text \<open>
  C9, as stated, says that the queue and the visited set are disjoint at every observation
  point. A page that links to itself is offered to the queue before it is marked visited:
  after the first iteration of a crawl of such a page, its URL is in both.
\<close>

theorem C9_self_link_counterexample:
  "loop_body (stub_env get_self_link) 0 (NewsCrawler [url_a] 10 None)
     = Inr (crawl_states (stub_env get_self_link) 0 (NewsCrawler [url_a] 10 None) ! 6)
   \<and> queue (crawl_states (stub_env get_self_link) 0 (NewsCrawler [url_a] 10 None) ! 6) = [url_a]
   \<and> visited_urls (crawl_states (stub_env get_self_link) 0 (NewsCrawler [url_a] 10 None) ! 6)
       = [url_a]"
  by code_simp

text \<open>
  C9, amended: at every observation point of the loop, between iterations and between the
  steps of an iteration, a URL is in both the queue and the visited set only if its own
  page handed it to the queue in \<^verbatim>\<open>queue.update\<close>, that is, the page links to itself;
  every other URL is in at most one of the two.
\<close>

theorem C9_in_both_only_by_self_link:
  "\<forall>t \<in> set (crawl_states ev 0 (NewsCrawler starts maxp file)).
     \<forall>u \<in> set (queue t) \<inter> set (visited_urls t).
       list_ex (\<lambda>e. case e of Offer v links \<Rightarrow> v = u \<and> u \<in> set links | _ \<Rightarrow> False) (trace t)"
proof -
  have "both_self_offered (NewsCrawler starts maxp file)"
    by (simp add: both_self_offered_def NewsCrawler_def)
  from crawl_states_self_offered [OF this, of ev 0] show ?thesis
    by (simp add: both_self_offered_def offered_itself_def)
qed

text \<open>
  C9, an instance: the page a that links to itself is in both sets after the first
  iteration, and it is among the links that page a handed to the queue; in the run in which
  b fails no page links to itself and the two sets are disjoint when the loop ends.
\<close>

theorem C9_in_both_only_by_self_link_witness:
  "url_a \<in> set (queue (crawl_states (stub_env get_self_link) 0 (NewsCrawler [url_a] 10 None) ! 6))
   \<and> url_a \<in> set (visited_urls
        (crawl_states (stub_env get_self_link) 0 (NewsCrawler [url_a] 10 None) ! 6))
   \<and> Offer url_a [url_a]
        \<in> set (trace (crawl_states (stub_env get_self_link) 0 (NewsCrawler [url_a] 10 None) ! 6))
   \<and> list_ex (\<lambda>e. case e of Offer v links \<Rightarrow> v = url_a \<and> url_a \<in> set links | _ \<Rightarrow> False)
        (trace (crawl_states (stub_env get_self_link) 0 (NewsCrawler [url_a] 10 None) ! 6))
   \<and> set (queue (snd (crawl_loop (stub_env get_b_fails) 0 (NewsCrawler [url_a] 10 None))))
       \<inter> set (visited_urls (snd (crawl_loop (stub_env get_b_fails) 0 (NewsCrawler [url_a] 10 None))))
       = {}"
proof -
  let ?points = "crawl_states (stub_env get_self_link) 0 (NewsCrawler [url_a] 10 None)"
  have "6 < length ?points"
    by code_simp
  then have mem: "?points ! 6 \<in> set ?points"
    by (rule nth_mem)
  have q: "url_a \<in> set (queue (?points ! 6))"
    and v: "url_a \<in> set (visited_urls (?points ! 6))"
    and o: "Offer url_a [url_a] \<in> set (trace (?points ! 6))"
    by code_simp+
  have d: "set (queue (snd (crawl_loop (stub_env get_b_fails) 0 (NewsCrawler [url_a] 10 None))))
       \<inter> set (visited_urls (snd (crawl_loop (stub_env get_b_fails) 0 (NewsCrawler [url_a] 10 None))))
       = {}"
    by code_simp
  from C9_in_both_only_by_self_link [of "stub_env get_self_link" "[url_a]" 10 None] mem q v
  have "list_ex (\<lambda>e. case e of Offer v links \<Rightarrow> v = url_a \<and> url_a \<in> set links | _ \<Rightarrow> False)
        (trace (?points ! 6))"
    by blast
  with q v o d show ?thesis by blast
qed

subsection \<open>C10: the title's fallback chain\<close>

text \<open>
  C10: \<open>extract_title\<close> tries \<^verbatim>\<open>h1.article-title\<close>, \<^verbatim>\<open>h1.title\<close>, \<^verbatim>\<open>h1\<close>, \<^verbatim>\<open>title\<close> in
  this order and returns the text of the first selector that finds a tag; when none finds
  one, it returns the sentinel. It is a total function: there is no exception.
\<close>

theorem C10_extract_title_order:
  "title_selectors = [''h1.article-title'', ''h1.title'', ''h1'', ''title'']
   \<and> (\<forall>pre selector post elem.
         title_selectors = pre @ selector # post
         \<and> (\<forall>p \<in> set pre. select_one sp p = None)
         \<and> select_one sp selector = Some elem
         \<longrightarrow> extract_title sp = get_text_strip elem)
   \<and> ((\<forall>p \<in> set title_selectors. select_one sp p = None)
         \<longrightarrow> extract_title sp = title_not_found)"
proof -
  have order: "title_selectors = [''h1.article-title'', ''h1.title'', ''h1'', ''title'']"
    by (simp add: title_selectors_def)
  have first: "extract_title sp = get_text_strip elem"
    if "title_selectors = pre @ selector # post"
      and "\<forall>p \<in> set pre. select_one sp p = None"
      and "select_one sp selector = Some elem"
    for pre selector post elem
    using that first_match_skip [of pre sp "selector # post"]
    by (simp add: extract_title_def)
  have none: "extract_title sp = title_not_found"
    if "\<forall>p \<in> set title_selectors. select_one sp p = None"
    using that first_match_skip [of title_selectors sp "[]"]
    by (simp add: extract_title_def)
  from order first none show ?thesis by blast
qed

text \<open>
  C10, an instance: on a page with a specific article title and a document title the
  specific one is returned; on a page with neither, the sentinel.
\<close>

theorem C10_extract_title_order_witness:
  "select_one soup_titles ''h1.article-title''
     = Some \<lparr>get_text_strip = ''Specific'', get_text_sep = ''Specific'',
             attrs = [(''class'', ''article-title'')]\<rparr>
   \<and> select_one soup_titles ''title''
     = Some \<lparr>get_text_strip = ''Generic'', get_text_sep = ''Generic'', attrs = []\<rparr>
   \<and> extract_title soup_titles = ''Specific''
   \<and> extract_title (plain_soup []) = title_not_found"
proof -
  have specific: "select_one soup_titles ''h1.article-title''
     = Some \<lparr>get_text_strip = ''Specific'', get_text_sep = ''Specific'',
             attrs = [(''class'', ''article-title'')]\<rparr>"
    and generic: "select_one soup_titles ''title''
     = Some \<lparr>get_text_strip = ''Generic'', get_text_sep = ''Generic'', attrs = []\<rparr>"
    by (simp_all add: soup_titles_def)
  have split: "title_selectors = [] @ ''h1.article-title'' # [''h1.title'', ''h1'', ''title'']"
    by (simp add: title_selectors_def)
  have "extract_title soup_titles = ''Specific''"
    using C10_extract_title_order [of soup_titles] split specific by fastforce
  moreover have "extract_title (plain_soup []) = title_not_found"
    using C10_extract_title_order [of "plain_soup []"] by (simp add: plain_soup_def)
  ultimately show ?thesis
    using specific generic by blast
qed

end
